theory Spec2Isabelle
  imports Complex_Main
begin

section \<open>Floating-point values\<close>

text \<open>
  \<^verbatim>\<open>nvbench::float64_t\<close> and \<^verbatim>\<open>nvbench::float32_t\<close> are modelled by one type: a finite
  value is the real number it denotes, and the IEEE special values are kept, so that a
  division by zero yields an infinity or a NaN as it does in the program, and every
  comparison with a NaN is false. Arithmetic on finite values is exact: rounding, the
  two precisions and the sign of zero are outside the model (a quotient \<open>x / 0\<close> takes
  the zero as positive).
\<close>

datatype float64 = Fin real | PInf | NInf | NaN

type_synonym float32 = float64

fun fneg :: "float64 \<Rightarrow> float64" where
  "fneg (Fin a) = Fin (- a)"
| "fneg PInf = NInf"
| "fneg NInf = PInf"
| "fneg NaN = NaN"

fun fadd :: "float64 \<Rightarrow> float64 \<Rightarrow> float64" where
  "fadd (Fin a) (Fin b) = Fin (a + b)"
| "fadd NaN _ = NaN"
| "fadd _ NaN = NaN"
| "fadd PInf NInf = NaN"
| "fadd NInf PInf = NaN"
| "fadd PInf _ = PInf"
| "fadd _ PInf = PInf"
| "fadd NInf _ = NInf"
| "fadd _ NInf = NInf"

definition fsub :: "float64 \<Rightarrow> float64 \<Rightarrow> float64" where
  "fsub a b = fadd a (fneg b)"

text \<open>The sign of a value, for products and quotients with an infinity.\<close>

fun fsign :: "float64 \<Rightarrow> int" where
  "fsign (Fin a) = (if a < 0 then - 1 else if a = 0 then 0 else 1)"
| "fsign PInf = 1"
| "fsign NInf = - 1"
| "fsign NaN = 0"

definition inf_of_sign :: "int \<Rightarrow> float64" where
  "inf_of_sign s = (if s = 0 then NaN else if 0 < s then PInf else NInf)"

fun fmul :: "float64 \<Rightarrow> float64 \<Rightarrow> float64" where
  "fmul (Fin a) (Fin b) = Fin (a * b)"
| "fmul NaN _ = NaN"
| "fmul _ NaN = NaN"
| "fmul a b = inf_of_sign (fsign a * fsign b)"

fun fdiv :: "float64 \<Rightarrow> float64 \<Rightarrow> float64" where
  "fdiv (Fin a) (Fin b) = (if b = 0 then inf_of_sign (fsign (Fin a)) else Fin (a / b))"
| "fdiv NaN _ = NaN"
| "fdiv _ NaN = NaN"
| "fdiv (Fin a) _ = Fin 0"
| "fdiv a (Fin b) = inf_of_sign (fsign a * (if b < 0 then - 1 else 1))"
| "fdiv _ _ = NaN"


fun fless :: "float64 \<Rightarrow> float64 \<Rightarrow> bool" where
  "fless (Fin a) (Fin b) = (a < b)"
| "fless NaN _ = False"
| "fless _ NaN = False"
| "fless NInf NInf = False"
| "fless NInf _ = True"
| "fless _ NInf = False"
| "fless PInf _ = False"
| "fless _ PInf = True"

text \<open>
  \<^verbatim>\<open>static_cast<nvbench::float64_t>(n)\<close> of a \<^verbatim>\<open>std::size_t\<close> or an
  \<^verbatim>\<open>nvbench::int64_t\<close>.
\<close>

definition float_of_size :: "nat \<Rightarrow> float64" where
  "float_of_size n = Fin (real n)"

definition float_of_int64 :: "int \<Rightarrow> float64" where
  "float_of_int64 i = Fin (real_of_int i)"

section \<open>Sizes\<close>

text \<open>
  A \<^verbatim>\<open>std::size_t\<close> is a natural number. Sums and products of sizes stay far below
  \<open>2 ^ 64\<close> for vectors that fit in memory and are not reduced; a subtraction that
  goes below zero wraps around, as the unsigned type does.
\<close>

definition size_sub :: "nat \<Rightarrow> nat \<Rightarrow> nat" where
  "size_sub a b = (if a < b then a + 2 ^ 64 - b else a - b)"

section \<open>Histogram of a sample vector\<close>

text \<open>
  \<^verbatim>\<open>std::lower_bound(first, last, value)\<close> on the iterators \<open>data.begin() + first\<close> and
  \<open>data.begin() + last\<close>: the standard library's binary search, which halves the
  length of the range until it is empty. It reads \<open>data\<close> only inside the range.
\<close>

function lower_bound_loop :: "float64 list \<Rightarrow> nat \<Rightarrow> nat \<Rightarrow> float64 \<Rightarrow> nat" where
  "lower_bound_loop data first len val =
     (if 0 < len then
        (let half = len div 2;
             middle = first + half
         in if fless (data ! middle) val
            then lower_bound_loop data (middle + 1) (len - half - 1) val
            else lower_bound_loop data first half val)
      else first)"
  by pat_completeness auto
termination
  by (relation "measure (\<lambda>(data, first, len, val). len)") auto

declare lower_bound_loop.simps [simp del]

definition lower_bound :: "float64 list \<Rightarrow> nat \<Rightarrow> nat \<Rightarrow> float64 \<Rightarrow> nat" where
  "lower_bound data first last_i val = lower_bound_loop data first (last_i - first) val"

text \<open>
  The loop of \<^verbatim>\<open>compute_histogram\<close> over the \<open>bins + 1\<close> levels. \<open>iter\<close> is the
  position of the iterator in \<open>data\<close>; the pair returned is the iterator after the
  loop and the entries pushed so far.
\<close>

function compute_histogram_loop ::
  "float64 list \<Rightarrow> float64 \<Rightarrow> float64 \<Rightarrow> nat \<Rightarrow> nat \<Rightarrow> nat \<Rightarrow> int list \<Rightarrow> nat \<times> int list" where
  "compute_histogram_loop data min_v stride bins i iter histo =
     (if i < bins + 1 then
        (let level = fadd min_v (fmul stride (float_of_size i));
             prev = iter;
             iter' = lower_bound data iter (length data) level
         in compute_histogram_loop data min_v stride bins (i + 1) iter'
              (histo @ [int (iter' - prev)]))
      else (iter, histo))"
  by pat_completeness auto
termination
  by (relation "measure (\<lambda>(data, min_v, stride, bins, i, iter, histo). bins + 1 - i)") auto

declare compute_histogram_loop.simps [simp del]

definition compute_histogram :: "float64 list \<Rightarrow> float64 \<Rightarrow> float64 \<Rightarrow> nat \<Rightarrow> int list" where
  "compute_histogram data min_v stride bins =
     (let (iter, histo) = compute_histogram_loop data min_v stride bins 0 0 []
      in histo @ [int (length data - iter)])"





section \<open>Fitting the histogram window\<close>

text \<open>
  Undefined behaviour and a failed \<^verbatim>\<open>assert\<close> are results of their own: a read or
  write past the end of a vector, an assertion that does not hold, and a conversion
  of a floating-point value to an integer type that cannot represent it.
\<close>

datatype error = OutOfBounds | AssertionFailed | InvalidCast

text \<open>
  \<^verbatim>\<open>std::reduce(first, last, nvbench::int64_t{}, max)\<close>: the largest entry, or the
  initial value \<open>0\<close> if no entry is larger.
\<close>

definition reduce_max :: "int list \<Rightarrow> int" where
  "reduce_max xs = foldl max 0 xs"

text \<open>Conversions of a floating-point value to an integer type truncate towards zero.\<close>

definition trunc :: "real \<Rightarrow> int" where
  "trunc r = (if 0 \<le> r then \<lfloor>r\<rfloor> else \<lceil>r\<rceil>)"

definition int64_of_float :: "float64 \<Rightarrow> int option" where
  "int64_of_float x =
     (case x of
        Fin r \<Rightarrow> (if - (2 ^ 63) \<le> trunc r \<and> trunc r < 2 ^ 63 then Some (trunc r) else None)
      | _ \<Rightarrow> None)"

definition size_of_float :: "float64 \<Rightarrow> nat option" where
  "size_of_float x =
     (case x of
        Fin r \<Rightarrow> (if 0 \<le> trunc r \<and> trunc r < 2 ^ 64 then Some (nat (trunc r)) else None)
      | _ \<Rightarrow> None)"

definition uint8_of_float :: "float64 \<Rightarrow> nat option" where
  "uint8_of_float x =
     (case x of
        Fin r \<Rightarrow> (if 0 \<le> trunc r \<and> trunc r < 2 ^ 8 then Some (nat (trunc r)) else None)
      | _ \<Rightarrow> None)"

function min_level_loop :: "int list \<Rightarrow> nat \<Rightarrow> int \<Rightarrow> nat \<Rightarrow> nat" where
  "min_level_loop histo bins thresh min_level =
     (if min_level < bins + 1 \<and> histo ! min_level < thresh
      then min_level_loop histo bins thresh (min_level + 1)
      else min_level)"
  by pat_completeness auto
termination
  by (relation "measure (\<lambda>(histo, bins, thresh, min_level). bins + 1 - min_level)") auto

declare min_level_loop.simps [simp del]

function max_level_loop :: "int list \<Rightarrow> int \<Rightarrow> nat \<Rightarrow> nat \<Rightarrow> nat" where
  "max_level_loop histo thresh min_level max_level =
     (if max_level > min_level \<and> histo ! max_level < thresh
      then max_level_loop histo thresh min_level (max_level - 1)
      else max_level)"
  by pat_completeness auto
termination
  by (relation "measure (\<lambda>(histo, thresh, min_level, max_level). max_level)") auto

declare max_level_loop.simps [simp del]

text \<open>The two trimming loops of \<^verbatim>\<open>fit_histogram\<close>: the pair \<open>(min_level, max_level)\<close>.\<close>

definition trim_levels :: "int list \<Rightarrow> nat \<Rightarrow> int \<Rightarrow> nat \<times> nat" where
  "trim_levels histo bins thresh =
     (let min_level = min_level_loop histo bins thresh 1;
          max_level = max_level_loop histo thresh min_level (bins + 1)
      in (min_level, max_level))"

text \<open>
  \<^verbatim>\<open>fit_histogram\<close> returns the histogram and overwrites \<open>min\<close> and \<open>stride\<close>: the
  model returns the new \<open>min\<close>, the new \<open>stride\<close> and the histogram.
\<close>

definition fit_histogram ::
  "float64 list \<Rightarrow> float64 \<Rightarrow> float64 \<Rightarrow> nat \<Rightarrow> float32 \<Rightarrow> error + (float64 \<times> float64 \<times> int list)" where
  "fit_histogram data min_v stride bins count_thresh_frac =
     (let histo = compute_histogram data min_v stride bins;
          most = reduce_max histo
      in case int64_of_float (fmul (float_of_int64 most) count_thresh_frac) of
           None \<Rightarrow> Inl InvalidCast
         | Some thresh \<Rightarrow>
             (let (min_level, max_level) = trim_levels histo bins thresh;
                  max_v = fadd min_v (fmul stride (float_of_size (max_level + 1)));
                  min_v' = fadd min_v (fmul stride (float_of_size min_level));
                  stride' = fdiv (fsub max_v min_v') (float_of_size bins)
              in Inr (min_v', stride', compute_histogram data min_v' stride' bins)))"

section \<open>Noise and percentiles\<close>




text \<open>\<^verbatim>\<open>std::clamp(v, lo, hi)\<close>.\<close>

definition clamp :: "int \<Rightarrow> int \<Rightarrow> int \<Rightarrow> int" where
  "clamp v lo hi = (if v < lo then lo else if hi < v then hi else v)"

text \<open>
  The index \<^verbatim>\<open>(p == 100) ? (data.size() - 1) : (p * data.size() / 100)\<close> of a clamped
  request, computed in \<^verbatim>\<open>std::size_t\<close>: on an empty vector \<open>data.size() - 1\<close> wraps
  around.
\<close>

definition percentile_index :: "nat \<Rightarrow> int \<Rightarrow> nat" where
  "percentile_index n p = (if p = 100 then size_sub n 1 else nat p * n div 100)"

text \<open>
  The loop over the requests. \<^verbatim>\<open>data[idx]\<close> past the end of the vector is undefined
  behaviour.
\<close>

fun compute_percentiles_loop :: "float64 list \<Rightarrow> int list \<Rightarrow> float64 list \<Rightarrow> error + float64 list" where
  "compute_percentiles_loop data [] results = Inr results"
| "compute_percentiles_loop data (p # ps) results =
     (let p' = clamp p 0 100;
          idx = percentile_index (length data) p'
      in if idx < length data
         then compute_percentiles_loop data ps (results @ [data ! idx])
         else Inl OutOfBounds)"

definition compute_percentiles :: "float64 list \<Rightarrow> int list \<Rightarrow> error + float64 list" where
  "compute_percentiles data percentiles = compute_percentiles_loop data percentiles []"

text \<open>
  A percentile in the words of the specification: the request is clamped to
  \<open>[0, 100]\<close>; the index is \<open>n - 1\<close> if it is \<open>100\<close> and \<open>floor (p * n / 100)\<close> otherwise.
\<close>

definition percentile_spec :: "float64 list \<Rightarrow> int \<Rightarrow> float64" where
  "percentile_spec sorted_samples p =
     (let n = length sorted_samples;
          p' = max 0 (min 100 p)
      in if p' = 100 then sorted_samples ! (n - 1)
         else sorted_samples ! nat \<lfloor>real_of_int p' * real n / 100\<rfloor>)"

section \<open>The histogram printer\<close>

text \<open>\<^verbatim>\<open>std::fmod(x, y)\<close>: the remainder of the division truncated towards zero.\<close>

fun ffmod :: "float32 \<Rightarrow> float32 \<Rightarrow> float32" where
  "ffmod (Fin a) (Fin b) = (if b = 0 then NaN else Fin (a - real_of_int (trunc (a / b)) * b))"
| "ffmod NaN _ = NaN"
| "ffmod _ NaN = NaN"
| "ffmod (Fin a) _ = Fin a"
| "ffmod _ _ = NaN"

record histogram_printer =
  m_min :: float64
  m_stride :: float64
  m_bins :: "int list"
  m_num_rows :: nat
  m_num_bins :: nat
  m_scale_factor :: float32
  m_chart :: "nat list"

text \<open>
  The constructor. \<open>m_num_bins\<close> is \<^verbatim>\<open>bins.size() - 2\<close> in \<^verbatim>\<open>std::size_t\<close>, the scale
  factor is \<open>1 / (size of fullest bin)\<close>, and the chart starts as
  \<open>m_num_bins * m_num_rows\<close> zeros.
\<close>

definition make_histogram_printer :: "float64 \<Rightarrow> float64 \<Rightarrow> int list \<Rightarrow> histogram_printer" where
  "make_histogram_printer min_v stride bins =
     \<lparr> m_min = min_v,
       m_stride = stride,
       m_bins = bins,
       m_num_rows = 10,
       m_num_bins = size_sub (length bins) 2,
       m_scale_factor = fdiv (Fin 1) (float_of_int64 (reduce_max bins)),
       m_chart = replicate (size_sub (length bins) 2 * 10) 0 \<rparr>"

definition write_element :: "histogram_printer \<Rightarrow> nat \<Rightarrow> nat \<Rightarrow> nat \<Rightarrow> error + histogram_printer" where
  "write_element p bin row eighths =
     (let row' = size_sub (size_sub (m_num_rows p) row) 1;
          offset = row' * m_num_bins p + bin
      in if offset < length (m_chart p)
         then Inr (p\<lparr>m_chart := (m_chart p)[offset := eighths]\<rparr>)
         else Inl AssertionFailed)"

text \<open>The loop over the filled elements of a bin: rows \<open>row, ..., num_full - 1\<close>.\<close>

function write_filled :: "histogram_printer \<Rightarrow> nat \<Rightarrow> nat \<Rightarrow> nat \<Rightarrow> error + histogram_printer" where
  "write_filled p bin num_full row =
     (if row < num_full then
        (case write_element p bin row 8 of
           Inl e \<Rightarrow> Inl e
         | Inr p' \<Rightarrow> write_filled p' bin num_full (row + 1))
      else Inr p)"
  by pat_completeness auto
termination
  by (relation "measure (\<lambda>(p, bin, num_full, row). num_full - row)") auto

declare write_filled.simps [simp del]

definition render_bin :: "histogram_printer \<Rightarrow> nat \<Rightarrow> error + histogram_printer" where
  "render_bin p bin =
     (if \<not> bin + 1 < length (m_bins p) then Inl OutOfBounds
      else
        (let value_v = m_bins p ! (bin + 1);
             scaled_value = fmul (float_of_int64 value_v) (m_scale_factor p);
             partial_frac = ffmod scaled_value (Fin 1)
         in case size_of_float (fmul scaled_value (float_of_size (m_num_rows p))) of
              None \<Rightarrow> Inl InvalidCast
            | Some num_full \<Rightarrow>
                (case uint8_of_float (fmul partial_frac (Fin 8)) of
                   None \<Rightarrow> Inl InvalidCast
                 | Some eighths \<Rightarrow>
                     if \<not> num_full \<le> m_num_rows p then Inl AssertionFailed
                     else
                       (case write_filled p bin num_full 0 of
                          Inl e \<Rightarrow> Inl e
                        | Inr p' \<Rightarrow>
                            if num_full < m_num_rows p
                            then write_element p' bin num_full eighths
                            else Inr p'))))"

text \<open>The loop of \<^verbatim>\<open>render\<close> over the bins \<open>bin, ..., m_num_bins - 1\<close>.\<close>

function render_bins :: "histogram_printer \<Rightarrow> nat \<Rightarrow> error + histogram_printer" where
  "render_bins p bin =
     (if bin < m_num_bins p then
        (case render_bin p bin of
           Inl e \<Rightarrow> Inl e
         | Inr p' \<Rightarrow> render_bins p' (bin + 1))
      else Inr p)"
  by pat_completeness auto

text \<open>
  The loop ends because rendering a bin writes to the chart only: the other members
  keep their values.
\<close>

definition same_members :: "histogram_printer \<Rightarrow> histogram_printer \<Rightarrow> bool" where
  "same_members p p' =
     (m_min p' = m_min p \<and> m_stride p' = m_stride p \<and> m_bins p' = m_bins p \<and>
      m_num_rows p' = m_num_rows p \<and> m_num_bins p' = m_num_bins p \<and>
      m_scale_factor p' = m_scale_factor p \<and> length (m_chart p') = length (m_chart p))"

lemma write_element_members:
  "write_element p bin row eighths = Inr p' \<Longrightarrow> same_members p p'"
  by (auto simp: write_element_def same_members_def Let_def split: if_splits)

lemma write_filled_members:
  "write_filled p bin num_full row = Inr p' \<Longrightarrow> same_members p p'"
proof (induction p bin num_full row rule: write_filled.induct)
  case (1 p bin num_full row)
  show ?case
  proof (cases "row < num_full")
    case False
    with "1.prems" show ?thesis
      by (simp add: write_filled.simps same_members_def)
  next
    case True
    with "1.prems" obtain q where
      q: "write_element p bin row 8 = Inr q" "write_filled q bin num_full (row + 1) = Inr p'"
      by (subst (asm) write_filled.simps) (auto split: sum.splits)
    from "1.IH" [OF True q(1) q(2)] write_element_members [OF q(1)] show ?thesis
      by (simp add: same_members_def)
  qed
qed

lemma render_bin_members:
  assumes "render_bin p bin = Inr p'"
  shows "same_members p p'"
proof -
  from assms obtain num_full eighths q where
    q: "write_filled p bin num_full 0 = Inr q"
    and r: "p' = q \<or> write_element q bin num_full eighths = Inr p'"
    by (auto simp: render_bin_def Let_def split: if_splits option.splits sum.splits)
  from r write_filled_members [OF q] show ?thesis
    by (auto simp: same_members_def dest!: write_element_members)
qed

termination render_bins
proof (relation "measure (\<lambda>(p, bin). m_num_bins p - bin)")
  show "wf (measure (\<lambda>(p, bin). m_num_bins p - bin))"
    by simp
next
  fix p :: histogram_printer and bin :: nat and p' :: histogram_printer
  assume "bin < m_num_bins p" and "render_bin p bin = Inr p'"
  then show "((p', bin + 1), (p, bin)) \<in> measure (\<lambda>(p, bin). m_num_bins p - bin)"
    using render_bin_members [of p bin p'] by (simp add: same_members_def)
qed

declare render_bins.simps [simp del]

text \<open>
  The glyphs: a space, or the UTF-8 bytes of U+2581 ... U+2588
  (\<open>E2 96 81\<close> ... \<open>E2 96 88\<close>).
\<close>

definition render_eighth :: "nat \<Rightarrow> string" where
  "render_eighth eighth =
     (if eighth = 1 then [CHR 0xE2, CHR 0x96, CHR 0x81]
      else if eighth = 2 then [CHR 0xE2, CHR 0x96, CHR 0x82]
      else if eighth = 3 then [CHR 0xE2, CHR 0x96, CHR 0x83]
      else if eighth = 4 then [CHR 0xE2, CHR 0x96, CHR 0x84]
      else if eighth = 5 then [CHR 0xE2, CHR 0x96, CHR 0x85]
      else if eighth = 6 then [CHR 0xE2, CHR 0x96, CHR 0x86]
      else if eighth = 7 then [CHR 0xE2, CHR 0x96, CHR 0x87]
      else if eighth = 8 then [CHR 0xE2, CHR 0x96, CHR 0x88]
      else '' '')"

text \<open>\<^verbatim>\<open>get_row\<close>: the elements between the two iterators it returns.\<close>

definition get_row :: "histogram_printer \<Rightarrow> nat \<Rightarrow> nat list" where
  "get_row p row = take (m_num_bins p) (drop (row * m_num_bins p) (m_chart p))"

definition render_row :: "histogram_printer \<Rightarrow> nat \<Rightarrow> string" where
  "render_row p row = ''|'' @ concat (map render_eighth (get_row p row)) @ [CHR ''|'', CHR 0x0A]"

definition render_string :: "histogram_printer \<Rightarrow> string" where
  "render_string p = concat (map (render_row p) [0..<m_num_rows p])"

definition render :: "histogram_printer \<Rightarrow> error + string" where
  "render p =
     (case render_bins p 0 of
        Inl e \<Rightarrow> Inl e
      | Inr p' \<Rightarrow> Inr (render_string p'))"



text \<open>
  The bin vector the printer expects: the underflow and overflow slots around the
  bins, counts that are not negative, and at least one count that is not zero.
\<close>

definition histogram_ok :: "int list \<Rightarrow> bool" where
  "histogram_ok bins = (2 \<le> length bins \<and> (\<forall>e \<in> set bins. 0 \<le> e) \<and> (\<exists>e \<in> set bins. e \<noteq> 0))"

text \<open>
  The element of the chart for a bin and a row, at the offset \<^verbatim>\<open>write_element\<close>
  writes to: row \<open>0\<close> is the bottom row and is stored last.
\<close>

definition chart_cell :: "histogram_printer \<Rightarrow> nat \<Rightarrow> nat \<Rightarrow> nat" where
  "chart_cell p bin row = m_chart p ! ((m_num_rows p - row - 1) * m_num_bins p + bin)"

text \<open>
  The chart in the words of the specification: the scale factor is \<open>1 / max\<close> over the
  whole bin vector, the scaled value of a bin is its count times the scale factor,
  \<open>floor (scaled_value * num_rows)\<close> rows are full, the row above them holds
  \<open>floor (fractional_part scaled_value * 8)\<close> eighths, and the rows above are blank.
\<close>

definition scale_factor_spec :: "int list \<Rightarrow> real" where
  "scale_factor_spec bins = 1 / real_of_int (Max (set bins))"

definition scaled_value_spec :: "int list \<Rightarrow> nat \<Rightarrow> real" where
  "scaled_value_spec bins bin = real_of_int (bins ! (bin + 1)) * scale_factor_spec bins"

definition num_full_spec :: "int list \<Rightarrow> nat \<Rightarrow> nat" where
  "num_full_spec bins bin = nat \<lfloor>scaled_value_spec bins bin * 10\<rfloor>"

definition cell_level_spec :: "int list \<Rightarrow> nat \<Rightarrow> nat \<Rightarrow> nat" where
  "cell_level_spec bins bin row =
     (if row < num_full_spec bins bin then 8
      else if row = num_full_spec bins bin then nat \<lfloor>frac (scaled_value_spec bins bin) * 8\<rfloor>
      else 0)"

text \<open>
  The members of a printer made from a bin vector, whatever the chart holds: the state
  in which \<^verbatim>\<open>render\<close> calls \<^verbatim>\<open>render_bin\<close>.
\<close>

definition printer_for :: "int list \<Rightarrow> histogram_printer \<Rightarrow> bool" where
  "printer_for bins p =
     (m_bins p = bins \<and> m_num_rows p = 10 \<and> m_num_bins p = length bins - 2 \<and>
      m_scale_factor p = Fin (scale_factor_spec bins) \<and>
      length (m_chart p) = m_num_bins p * m_num_rows p)"


section \<open>Properties of the histogram\<close>

lemma lower_bound_loop_range:
  "first \<le> lower_bound_loop data first len val \<and>
   lower_bound_loop data first len val \<le> first + len"
proof (induction data first len val rule: lower_bound_loop.induct)
  case (1 data first len val)
  show ?case
  proof (cases "0 < len")
    case False
    then show ?thesis by (simp add: lower_bound_loop.simps)
  next
    case pos: True
    show ?thesis
    proof (cases "fless (data ! (first + len div 2)) val")
      case True
      have eq: "lower_bound_loop data first len val =
          lower_bound_loop data (first + len div 2 + 1) (len - len div 2 - 1) val"
        using pos True by (subst lower_bound_loop.simps) (simp add: Let_def)
      from 1(1) [OF pos refl refl True] pos show ?thesis
        unfolding eq by linarith
    next
      case False
      have eq: "lower_bound_loop data first len val =
          lower_bound_loop data first (len div 2) val"
        using pos False by (subst lower_bound_loop.simps) (simp add: Let_def)
      from 1(2) [OF pos refl refl False] pos show ?thesis
        unfolding eq by linarith
    qed
  qed
qed

lemma lower_bound_range:
  assumes "first \<le> last_i"
  shows "first \<le> lower_bound data first last_i val"
    and "lower_bound data first last_i val \<le> last_i"
  using lower_bound_loop_range [of first data "last_i - first" val] assms
  by (simp_all add: lower_bound_def)

lemma compute_histogram_loop_inv:
  assumes "iter \<le> length data"
  shows "case compute_histogram_loop data min_v stride bins i iter histo of
           (iter', histo') \<Rightarrow>
             iter \<le> iter' \<and> iter' \<le> length data \<and>
             length histo' = length histo + (bins + 1 - i) \<and>
             sum_list histo' = sum_list histo + int (iter' - iter) \<and>
             (\<forall>e \<in> set histo'. e \<in> set histo \<or> 0 \<le> e)"
  using assms
proof (induction data min_v stride bins i iter histo rule: compute_histogram_loop.induct)
  case (1 data min_v stride bins i iter histo)
  show ?case
  proof (cases "i < bins + 1")
    case False
    with "1.prems" show ?thesis by (simp add: compute_histogram_loop.simps)
  next
    case True
    define level where "level = fadd min_v (fmul stride (float_of_size i))"
    define it where "it = lower_bound data iter (length data) level"
    have rng: "iter \<le> it" "it \<le> length data"
      using lower_bound_range [OF "1.prems"] by (simp_all add: it_def)
    have eq: "compute_histogram_loop data min_v stride bins i iter histo =
        compute_histogram_loop data min_v stride bins (i + 1) it (histo @ [int (it - iter)])"
      using True by (subst compute_histogram_loop.simps) (simp add: Let_def it_def level_def)
    have "it \<le> length data \<Longrightarrow>
        (case compute_histogram_loop data min_v stride bins (i + 1) it (histo @ [int (it - iter)]) of
           (iter', histo') \<Rightarrow>
             it \<le> iter' \<and> iter' \<le> length data \<and>
             length histo' = length (histo @ [int (it - iter)]) + (bins + 1 - (i + 1)) \<and>
             sum_list histo' = sum_list (histo @ [int (it - iter)]) + int (iter' - it) \<and>
             (\<forall>e \<in> set histo'. e \<in> set (histo @ [int (it - iter)]) \<or> 0 \<le> e))"
      using "1.IH" [OF True refl refl refl] unfolding it_def level_def .
    with rng True show ?thesis
      unfolding eq by (auto split: prod.splits)
  qed
qed

lemma compute_histogram_shape:
  "length (compute_histogram data min_v stride bins) = bins + 2 \<and>
   sum_list (compute_histogram data min_v stride bins) = int (length data) \<and>
   (\<forall>e \<in> set (compute_histogram data min_v stride bins). 0 \<le> e)"
proof -
  obtain iter histo where
    loop: "compute_histogram_loop data min_v stride bins 0 0 [] = (iter, histo)"
    by (cases "compute_histogram_loop data min_v stride bins 0 0 []")
  have inv: "iter \<le> length data" "length histo = bins + 1"
    "sum_list histo = int iter" "\<forall>e \<in> set histo. 0 \<le> e"
    using compute_histogram_loop_inv [where iter = 0 and i = 0 and histo = "[]"
        and data = data and min_v = min_v and stride = stride and bins = bins] loop
    by simp_all
  have res: "compute_histogram data min_v stride bins = histo @ [int (length data - iter)]"
    by (simp add: compute_histogram_def loop)
  show ?thesis
    unfolding res using inv by auto
qed

text \<open>
  C2. For every sample vector, every \<open>min\<close>, every \<open>stride\<close> and every bin count, the
  histogram has \<open>bins + 2\<close> entries, each a non-negative integer, and they add up to
  the number of samples. Neither sortedness nor a finite window is needed: the search
  never leaves the range it is given.
\<close>

theorem compute_histogram_sum:
  "length (compute_histogram data min_v stride bins) = bins + 2 \<and>
   sum_list (compute_histogram data min_v stride bins) = int (length data) \<and>
   (\<forall>e \<in> set (compute_histogram data min_v stride bins). 0 \<le> e)"
  by (rule compute_histogram_shape)

theorem compute_histogram_sum_witness:
  "compute_histogram [Fin 3, Fin 1, NaN, Fin 2] (Fin 2) (Fin (- 1)) 1 = [2, 0, 2] \<and>
   sum_list (compute_histogram [Fin 3, Fin 1, NaN, Fin 2] (Fin 2) (Fin (- 1)) 1) = 4 \<and>
   length (compute_histogram [Fin 3, Fin 1, NaN, Fin 2] (Fin 2) (Fin (- 1)) 1) = 3"
  using compute_histogram_sum [of "[Fin 3, Fin 1, NaN, Fin 2]" "Fin 2" "Fin (- 1)" 1]
  by code_simp












section \<open>Properties of the fitted window\<close>












text \<open>
  C1. The new window is meant to span from the low boundary of the first kept bin,
  \<open>min + stride * (min_level - 1)\<close>, to the high boundary of the last kept bin,
  \<open>min + stride * max_level\<close>. The program takes \<open>min + stride * min_level\<close> and
  \<open>min + stride * (max_level + 1)\<close>: the window lies one bin too high. On the samples
  \<open>[1, 5, 5, 5, 5, 9]\<close> with \<open>min = 0\<close>, \<open>stride = 2\<close>, \<open>bins = 5\<close> and a threshold
  fraction of \<open>0.5\<close>, the only bin that reaches the threshold is bin \<open>3\<close>, that is
  \<open>[4, 6)\<close> with four samples; the new window is \<open>[6, 8)\<close> and the four samples are
  counted below it.
\<close>

theorem fit_histogram_window_one_bin_high:
  "compute_histogram [Fin 1, Fin 5, Fin 5, Fin 5, Fin 5, Fin 9] (Fin 0) (Fin 2) 5 =
     [0, 1, 0, 4, 0, 1, 0] \<and>
   int64_of_float (fmul (float_of_int64 (reduce_max [0, 1, 0, 4, 0, 1, 0])) (Fin 0.5)) = Some 2 \<and>
   trim_levels [0, 1, 0, 4, 0, 1, 0] 5 2 = (3, 3) \<and>
   fit_histogram [Fin 1, Fin 5, Fin 5, Fin 5, Fin 5, Fin 9] (Fin 0) (Fin 2) 5 (Fin 0.5) =
     Inr (Fin 6, Fin (2 / 5), [5, 0, 0, 0, 0, 0, 1])"
proof -
  have e1: "compute_histogram [Fin 1, Fin 5, Fin 5, Fin 5, Fin 5, Fin 9] (Fin 0) (Fin 2) 5 =
      [0, 1, 0, 4, 0, 1, 0]"
    by code_simp
  have e2: "int64_of_float (fmul (float_of_int64 (reduce_max [0, 1, 0, 4, 0, 1, 0])) (Fin 0.5)) =
      Some 2"
    by code_simp
  have e3: "trim_levels [0, 1, 0, 4, 0, 1, 0] 5 2 = (3, 3)"
    by code_simp
  have e4: "compute_histogram [Fin 1, Fin 5, Fin 5, Fin 5, Fin 5, Fin 9] (Fin 6) (Fin (2 / 5)) 5 =
      [5, 0, 0, 0, 0, 0, 1]"
    by code_simp
  have "fit_histogram [Fin 1, Fin 5, Fin 5, Fin 5, Fin 5, Fin 9] (Fin 0) (Fin 2) 5 (Fin 0.5) =
      Inr (Fin 6, Fin (2 / 5), [5, 0, 0, 0, 0, 0, 1])"
    by (simp add: fit_histogram_def Let_def e1 [simplified] e2 [simplified] e3 e4 [simplified]
        float_of_size_def fsub_def)
  with e1 e2 e3 show ?thesis
    by (intro conjI)
qed

section \<open>Properties of the noise\<close>








section \<open>Properties of the percentiles\<close>

lemma clamp_range: "0 \<le> clamp p 0 100 \<and> clamp p 0 100 \<le> 100"
  by (simp add: clamp_def)

lemma clamp_max_min: "clamp p 0 100 = max 0 (min 100 p)"
  by (simp add: clamp_def)

lemma percentile_index_bound:
  assumes "0 < n" "0 \<le> c" "c \<le> 100"
  shows "percentile_index n c < n"
proof (cases "c = 100")
  case True
  with assms(1) show ?thesis
    by (simp add: percentile_index_def size_sub_def)
next
  case False
  with assms have "nat c \<le> 99" by simp
  then have "nat c * n \<le> 99 * n" by simp
  then have "nat c * n div 100 \<le> 99 * n div 100" by (rule div_le_mono)
  also have "99 * n div 100 < n" using assms(1) by simp
  finally show ?thesis using False by (simp add: percentile_index_def)
qed

lemma percentile_index_floor:
  assumes "0 \<le> c" "c \<noteq> 100"
  shows "percentile_index n c = nat \<lfloor>real_of_int c * real n / 100\<rfloor>"
proof -
  have "real_of_int c * real n / 100 = real (nat c * n) / real 100"
    using assms(1) by simp
  also have "\<lfloor>\<dots>\<rfloor> = int (nat c * n div 100)"
    by (rule floor_divide_of_nat_eq)
  finally show ?thesis
    using assms(2) by (simp add: percentile_index_def)
qed

lemma percentile_read:
  assumes "data \<noteq> []"
  shows "data ! percentile_index (length data) (clamp p 0 100) = percentile_spec data p"
proof (cases "clamp p 0 100 = 100")
  case True
  with assms show ?thesis
    by (simp add: percentile_spec_def percentile_index_def size_sub_def Let_def
        clamp_max_min [symmetric])
next
  case False
  with percentile_index_floor [of "clamp p 0 100" "length data"] clamp_range [of p]
  show ?thesis
    by (simp add: percentile_spec_def Let_def clamp_max_min [symmetric])
qed

lemma compute_percentiles_loop_spec:
  assumes "data \<noteq> []"
  shows "compute_percentiles_loop data ps results = Inr (results @ map (percentile_spec data) ps)"
proof (induction ps arbitrary: results)
  case Nil
  show ?case by simp
next
  case (Cons p ps)
  have "percentile_index (length data) (clamp p 0 100) < length data"
    using assms clamp_range [of p] by (intro percentile_index_bound) simp_all
  then show ?case
    using Cons.IH percentile_read [OF assms, of p] by (simp add: Let_def)
qed

lemma percentile_spec_member:
  assumes "data \<noteq> []"
  shows "percentile_spec data p \<in> set data"
proof -
  have "percentile_index (length data) (clamp p 0 100) < length data"
    using assms clamp_range [of p] by (intro percentile_index_bound) simp_all
  then show ?thesis
    using percentile_read [OF assms, of p] nth_mem by metis
qed

text \<open>
  C6. On a non-empty sample vector, \<^verbatim>\<open>compute_percentiles\<close> returns one value per
  request, in the order of the requests: the sample at index \<open>n - 1\<close> if the clamped
  request is \<open>100\<close>, and at index \<open>floor (p * n / 100)\<close> otherwise. Every value is one of
  the samples. On \<open>[1, 2, 3, 4, 5]\<close> with the requests \<open>[0, 50, 100]\<close> it returns
  \<open>[1, 3, 5]\<close>.
\<close>

theorem compute_percentiles_nearest_rank:
  assumes "data \<noteq> []"
  shows "compute_percentiles data percentiles = Inr (map (percentile_spec data) percentiles) \<and>
         set (map (percentile_spec data) percentiles) \<subseteq> set data \<and>
         compute_percentiles (map Fin [1, 2, 3, 4, 5]) [0, 50, 100] = Inr (map Fin [1, 3, 5])"
proof -
  have "compute_percentiles data percentiles = Inr (map (percentile_spec data) percentiles)"
    using compute_percentiles_loop_spec [OF assms, of percentiles "[]"]
    by (simp add: compute_percentiles_def)
  moreover have "set (map (percentile_spec data) percentiles) \<subseteq> set data"
    using percentile_spec_member [OF assms] by auto
  moreover have
    "compute_percentiles (map Fin [1, 2, 3, 4, 5]) [0, 50, 100] = Inr (map Fin [1, 3, 5])"
    by code_simp
  ultimately show ?thesis by simp
qed

theorem compute_percentiles_nearest_rank_witness:
  "map Fin [10, 20, 30, 40] \<noteq> [] \<and>
   compute_percentiles (map Fin [10, 20, 30, 40]) [- 5, 25, 99, 100, 250] =
     Inr (map (percentile_spec (map Fin [10, 20, 30, 40])) [- 5, 25, 99, 100, 250]) \<and>
   compute_percentiles (map Fin [10, 20, 30, 40]) [- 5, 25, 99, 100, 250] =
     Inr (map Fin [10, 20, 40, 40, 40])"
proof -
  have ne: "map Fin [10, 20, 30, 40] \<noteq> []"
    by simp
  have ev: "compute_percentiles (map Fin [10, 20, 30, 40]) [- 5, 25, 99, 100, 250] =
      Inr (map Fin [10, 20, 40, 40, 40])"
    by code_simp
  from compute_percentiles_nearest_rank [OF ne, of "[- 5, 25, 99, 100, 250]"] ne ev
  show ?thesis
    by (intro conjI) simp_all
qed

text \<open>
  C10. On a non-empty sample vector of length \<open>n\<close> the index of every request is below
  \<open>n\<close>, so every read is in bounds and \<^verbatim>\<open>compute_percentiles\<close> returns. The vector
  must not be empty: there the index of a request of \<open>100\<close> is \<open>size - 1\<close>, which wraps
  around to \<open>2 ^ 64 - 1\<close>, and the first read is past the end for every request.
\<close>

theorem percentile_index_in_bounds:
  "(data \<noteq> [] \<longrightarrow>
      percentile_index (length data) (clamp p 0 100) < length data \<and>
      (\<exists>results. compute_percentiles data percentiles = Inr results)) \<and>
   percentile_index (length ([] :: float64 list)) (clamp 100 0 100) = 2 ^ 64 - 1 \<and>
   compute_percentiles [] (p # percentiles) = Inl OutOfBounds"
proof (intro conjI impI)
  assume ne: "data \<noteq> []"
  show "percentile_index (length data) (clamp p 0 100) < length data"
    using ne clamp_range [of p] by (intro percentile_index_bound) simp_all
  show "\<exists>results. compute_percentiles data percentiles = Inr results"
    using compute_percentiles_loop_spec [OF ne, of percentiles "[]"]
    by (simp add: compute_percentiles_def)
next
  show "percentile_index (length ([] :: float64 list)) (clamp 100 0 100) = 2 ^ 64 - 1"
    by (simp add: percentile_index_def size_sub_def clamp_def)
  show "compute_percentiles [] (p # percentiles) = Inl OutOfBounds"
    by (simp add: compute_percentiles_def percentile_index_def size_sub_def Let_def)
qed

theorem percentile_index_in_bounds_witness:
  "[Fin 7, Fin 8, Fin 9] \<noteq> [] \<and>
   percentile_index (length [Fin 7, Fin 8, Fin 9]) (clamp 99 0 100) < length [Fin 7, Fin 8, Fin 9] \<and>
   (\<exists>results. compute_percentiles [Fin 7, Fin 8, Fin 9] [99, 100] = Inr results) \<and>
   compute_percentiles [Fin 7, Fin 8, Fin 9] [99, 100] = Inr [Fin 9, Fin 9] \<and>
   compute_percentiles [] [100] = Inl OutOfBounds"
proof -
  have ev: "compute_percentiles [Fin 7, Fin 8, Fin 9] [99, 100] = Inr [Fin 9, Fin 9]"
    by code_simp
  from percentile_index_in_bounds [of "[Fin 7, Fin 8, Fin 9]" 99 "[99, 100]"]
    percentile_index_in_bounds [of "[]" 100 "[]"] ev
  show ?thesis
    by (intro conjI) simp_all
qed

section \<open>Properties of the printer\<close>

lemma foldl_max_Max:
  fixes a :: int
  shows "foldl max a xs = Max (insert a (set xs))"
proof (induction xs arbitrary: a)
  case Nil
  show ?case by simp
next
  case (Cons x xs)
  have "Max (insert (max a x) (set xs)) = Max (insert a (insert x (set xs)))"
    by (cases "set xs = {}") (simp_all add: max.assoc)
  with Cons.IH [of "max a x"] show ?case by simp
qed

lemma reduce_max_histogram_ok:
  assumes "histogram_ok bins"
  shows "reduce_max bins = Max (set bins)" and "0 < Max (set bins)"
proof -
  from assms obtain e where e: "e \<in> set bins" "e \<noteq> 0" and nn: "\<forall>x \<in> set bins. 0 \<le> x"
    by (auto simp: histogram_ok_def)
  then have "0 < e" by force
  also have "e \<le> Max (set bins)" using e(1) by simp
  finally show pos: "0 < Max (set bins)" .
  have "set bins \<noteq> {}" using e(1) by auto
  then have "Max (insert 0 (set bins)) = max 0 (Max (set bins))"
    by simp
  with pos show "reduce_max bins = Max (set bins)"
    by (simp add: reduce_max_def foldl_max_Max)
qed

lemma scaled_value_range:
  assumes "histogram_ok bins" "bin + 1 < length bins"
  shows "0 \<le> scaled_value_spec bins bin" and "scaled_value_spec bins bin \<le> 1"
proof -
  have mem: "bins ! (bin + 1) \<in> set bins" using assms(2) by simp
  have pos: "0 < Max (set bins)" by (rule reduce_max_histogram_ok(2) [OF assms(1)])
  have nn: "0 \<le> bins ! (bin + 1)" using assms(1) mem by (auto simp: histogram_ok_def)
  have le: "bins ! (bin + 1) \<le> Max (set bins)" using mem by simp
  show "0 \<le> scaled_value_spec bins bin"
    using nn pos by (simp add: scaled_value_spec_def scale_factor_spec_def)
  show "scaled_value_spec bins bin \<le> 1"
    using le pos by (simp add: scaled_value_spec_def scale_factor_spec_def)
qed

lemma num_full_le:
  assumes "histogram_ok bins" "bin + 1 < length bins"
  shows "num_full_spec bins bin \<le> 10"
proof -
  have "scaled_value_spec bins bin * 10 \<le> 10"
    using scaled_value_range(2) [OF assms] by simp
  then have "\<lfloor>scaled_value_spec bins bin * 10\<rfloor> \<le> 10"
    by (simp add: floor_le_iff)
  then show ?thesis unfolding num_full_spec_def by linarith
qed

lemma num_full_cast:
  assumes "histogram_ok bins" "bin + 1 < length bins"
  shows "size_of_float (fmul (fmul (float_of_int64 (bins ! (bin + 1))) (Fin (scale_factor_spec bins)))
           (float_of_size 10)) = Some (num_full_spec bins bin)"
proof -
  note r = scaled_value_range [OF assms]
  have nn: "0 \<le> scaled_value_spec bins bin * 10" using r(1) by simp
  have "\<lfloor>scaled_value_spec bins bin * 10\<rfloor> \<le> 10"
    using r(2) by (simp add: floor_le_iff)
  then have up: "\<lfloor>scaled_value_spec bins bin * 10\<rfloor> < 2 ^ 64" by simp
  have lo: "0 \<le> \<lfloor>scaled_value_spec bins bin * 10\<rfloor>" using nn by simp
  have "fmul (fmul (float_of_int64 (bins ! (bin + 1))) (Fin (scale_factor_spec bins)))
      (float_of_size 10) = Fin (scaled_value_spec bins bin * 10)"
    by (simp add: float_of_int64_def float_of_size_def scaled_value_spec_def)
  then show ?thesis
    using nn up lo by (simp add: size_of_float_def trunc_def num_full_spec_def)
qed

lemma eighths_cast:
  assumes "histogram_ok bins" "bin + 1 < length bins"
  shows "uint8_of_float (fmul (ffmod (fmul (float_of_int64 (bins ! (bin + 1)))
           (Fin (scale_factor_spec bins))) (Fin 1)) (Fin 8)) =
         Some (nat \<lfloor>frac (scaled_value_spec bins bin) * 8\<rfloor>)"
proof -
  note r = scaled_value_range [OF assms]
  let ?sv = "scaled_value_spec bins bin"
  have tr: "real_of_int (trunc ?sv) = real_of_int \<lfloor>?sv\<rfloor>"
    using r(1) by (simp add: trunc_def)
  have fr: "ffmod (fmul (float_of_int64 (bins ! (bin + 1))) (Fin (scale_factor_spec bins))) (Fin 1) =
      Fin (frac ?sv)"
    using tr by (simp add: float_of_int64_def scaled_value_spec_def frac_def)
  have f0: "0 \<le> frac ?sv * 8" by simp
  have "frac ?sv * 8 < 8" using frac_lt_1 [of ?sv] by simp
  then have "\<lfloor>frac ?sv * 8\<rfloor> < 8" by (simp add: floor_less_iff)
  then have up: "\<lfloor>frac ?sv * 8\<rfloor> < 2 ^ 8" by simp
  have lo: "0 \<le> \<lfloor>frac ?sv * 8\<rfloor>" using f0 by simp
  show ?thesis
    unfolding fr using f0 up lo by (simp add: uint8_of_float_def trunc_def)
qed


lemma offset_in_chart:
  assumes "row < (rows :: nat)" "bin < nb"
  shows "(rows - row - 1) * nb + bin < nb * rows"
proof -
  define k where "k = rows - row - 1"
  have k: "Suc k \<le> rows"
    using assms(1) by (simp add: k_def)
  have "k * nb + bin < Suc k * nb"
    using assms(2) by simp
  also have "\<dots> \<le> rows * nb"
    using k by (rule mult_le_mono1)
  finally show ?thesis
    by (simp add: k_def mult.commute)
qed

lemma offset_inject:
  assumes "row < (rows :: nat)" "row' < rows" "bin < nb" "bin' < nb"
    "(rows - row - 1) * nb + bin = (rows - row' - 1) * nb + bin'"
  shows "bin = bin' \<and> row = row'"
proof -
  have "((rows - row - 1) * nb + bin) mod nb = bin" "((rows - row' - 1) * nb + bin') mod nb = bin'"
    using assms(3,4) by simp_all
  with assms(5) have b: "bin = bin'" by metis
  have "((rows - row - 1) * nb + bin) div nb = rows - row - 1"
    "((rows - row' - 1) * nb + bin') div nb = rows - row' - 1"
    using assms(3,4) by simp_all
  with assms(5) have "rows - row - 1 = rows - row' - 1" by metis
  with assms(1,2) have "row = row'" by linarith
  with b show ?thesis by simp
qed

lemma printer_for_make:
  assumes "histogram_ok bins"
  shows "printer_for bins (make_histogram_printer min_v stride bins)"
    and "m_chart (make_histogram_printer min_v stride bins) = replicate ((length bins - 2) * 10) 0"
  using assms reduce_max_histogram_ok [OF assms]
  by (simp_all add: printer_for_def make_histogram_printer_def size_sub_def histogram_ok_def
      scale_factor_spec_def float_of_int64_def)

lemma write_element_cell:
  assumes "printer_for bins p" "bin < m_num_bins p" "row < 10"
  shows "\<exists>p'. write_element p bin row e = Inr p' \<and> printer_for bins p' \<and>
           (\<forall>b r. b < m_num_bins p \<longrightarrow> r < 10 \<longrightarrow>
              chart_cell p' b r = (if b = bin \<and> r = row then e else chart_cell p b r))"
proof -
  let ?nb = "m_num_bins p"
  let ?off = "(10 - row - 1) * ?nb + bin"
  have rows: "m_num_rows p = 10" and len: "length (m_chart p) = ?nb * 10"
    using assms(1) by (simp_all add: printer_for_def)
  have sub: "size_sub (size_sub 10 row) (Suc 0) = 10 - row - 1"
    using assms(3) by (simp add: size_sub_def)
  have off: "?off < length (m_chart p)"
    unfolding len by (rule offset_in_chart [OF assms(3,2)])
  define p' where "p' = p\<lparr>m_chart := (m_chart p)[?off := e]\<rparr>"
  have w: "write_element p bin row e = Inr p'"
    using off by (simp add: write_element_def rows sub Let_def p'_def)
  have inv: "printer_for bins p'"
    using assms(1) by (simp add: printer_for_def p'_def)
  have cell: "chart_cell p' b r = (if b = bin \<and> r = row then e else chart_cell p b r)"
    if "b < ?nb" "r < 10" for b r
  proof (cases "b = bin \<and> r = row")
    case True
    then show ?thesis
      using off by (simp add: chart_cell_def p'_def rows)
  next
    case False
    then have "(10 - r - 1) * ?nb + b \<noteq> ?off"
      using offset_inject [OF that(2) assms(3) that(1) assms(2)] by blast
    then have "chart_cell p' b r = chart_cell p b r"
      by (simp add: chart_cell_def p'_def rows)
    with False show ?thesis
      by auto
  qed
  from w inv cell show ?thesis by blast
qed

lemma write_filled_cell:
  assumes "printer_for bins p" "bin < m_num_bins p" "num_full \<le> 10"
  shows "\<exists>p'. write_filled p bin num_full row = Inr p' \<and> printer_for bins p' \<and>
           (\<forall>b r. b < m_num_bins p \<longrightarrow> r < 10 \<longrightarrow>
              chart_cell p' b r =
                (if b = bin \<and> row \<le> r \<and> r < num_full then 8 else chart_cell p b r))"
  using assms
proof (induction p bin num_full row rule: write_filled.induct)
  case (1 p bin num_full row)
  show ?case
  proof (cases "row < num_full")
    case False
    then have "write_filled p bin num_full row = Inr p"
      by (subst write_filled.simps) simp
    with False "1.prems"(1) show ?thesis by auto
  next
    case True
    with "1.prems"(3) have row: "row < 10" by simp
    from write_element_cell [OF "1.prems"(1,2) row, of 8] obtain q where
      q: "write_element p bin row 8 = Inr q" "printer_for bins q"
      and qc: "\<And>b r. b < m_num_bins p \<Longrightarrow> r < 10 \<Longrightarrow>
          chart_cell q b r = (if b = bin \<and> r = row then 8 else chart_cell p b r)"
      by blast
    have nb: "m_num_bins q = m_num_bins p"
      using q(2) "1.prems"(1) by (simp add: printer_for_def)
    from "1.IH" [OF True q(1) q(2) _ "1.prems"(3)] "1.prems"(2) nb obtain p' where
      p': "write_filled q bin num_full (row + 1) = Inr p'" "printer_for bins p'"
      and pc: "\<And>b r. b < m_num_bins p \<Longrightarrow> r < 10 \<Longrightarrow>
          chart_cell p' b r =
            (if b = bin \<and> row + 1 \<le> r \<and> r < num_full then 8 else chart_cell q b r)"
      by auto
    have w: "write_filled p bin num_full row = Inr p'"
      using True q(1) p'(1) by (subst write_filled.simps) simp
    have "chart_cell p' b r =
        (if b = bin \<and> row \<le> r \<and> r < num_full then 8 else chart_cell p b r)"
      if "b < m_num_bins p" "r < 10" for b r
      using pc [OF that] qc [OF that] True by auto
    with w p'(2) show ?thesis by blast
  qed
qed


lemma render_bin_cell:
  assumes "histogram_ok bins" "printer_for bins p" "bin < m_num_bins p"
  shows "\<exists>p'. render_bin p bin = Inr p' \<and> printer_for bins p' \<and>
           (\<forall>b r. b < m_num_bins p \<longrightarrow> r < 10 \<longrightarrow>
              chart_cell p' b r =
                (if b = bin \<and> r \<le> num_full_spec bins bin then cell_level_spec bins bin r
                 else chart_cell p b r))"
proof -
  let ?nf = "num_full_spec bins bin"
  let ?e = "nat \<lfloor>frac (scaled_value_spec bins bin) * 8\<rfloor>"
  have mem: "m_bins p = bins" "m_num_rows p = 10" "m_num_bins p = length bins - 2"
    "m_scale_factor p = Fin (scale_factor_spec bins)"
    using assms(2) by (simp_all add: printer_for_def)
  have idx: "bin + 1 < length bins"
    using assms(3) mem(3) by simp
  note nf = num_full_cast [OF assms(1) idx] and e = eighths_cast [OF assms(1) idx]
    and le = num_full_le [OF assms(1) idx]
  from write_filled_cell [OF assms(2,3) le, of 0] obtain q where
    q: "write_filled p bin ?nf 0 = Inr q" "printer_for bins q"
    and qc: "\<And>b r. b < m_num_bins p \<Longrightarrow> r < 10 \<Longrightarrow>
        chart_cell q b r = (if b = bin \<and> r < ?nf then 8 else chart_cell p b r)"
    by auto
  have nbq: "m_num_bins q = m_num_bins p" "m_num_rows q = 10"
    using q(2) mem by (simp_all add: printer_for_def)
  show ?thesis
  proof (cases "?nf < 10")
    case False
    with le have full: "?nf = 10" by simp
    have r: "render_bin p bin = Inr q"
      using idx nf e q(1) full by (simp add: render_bin_def mem Let_def)
    have "chart_cell q b r =
        (if b = bin \<and> r \<le> ?nf then cell_level_spec bins bin r else chart_cell p b r)"
      if "b < m_num_bins p" "r < 10" for b r
      using qc [OF that] that(2) full by (simp add: cell_level_spec_def)
    with r q(2) show ?thesis by blast
  next
    case True
    from write_element_cell [OF q(2) _ True, of bin ?e] assms(3) nbq obtain p' where
      p': "write_element q bin ?nf ?e = Inr p'" "printer_for bins p'"
      and pc: "\<And>b r. b < m_num_bins p \<Longrightarrow> r < 10 \<Longrightarrow>
          chart_cell p' b r = (if b = bin \<and> r = ?nf then ?e else chart_cell q b r)"
      by auto
    have r: "render_bin p bin = Inr p'"
      using idx nf e q(1) True p'(1) le by (simp add: render_bin_def mem Let_def)
    have "chart_cell p' b r =
        (if b = bin \<and> r \<le> ?nf then cell_level_spec bins bin r else chart_cell p b r)"
      if "b < m_num_bins p" "r < 10" for b r
      using pc [OF that] qc [OF that] by (auto simp: cell_level_spec_def)
    with r p'(2) show ?thesis by blast
  qed
qed

lemma render_bins_cell:
  assumes "histogram_ok bins" "printer_for bins p"
  shows "\<exists>p'. render_bins p bin = Inr p' \<and> printer_for bins p' \<and>
           (\<forall>b r. b < m_num_bins p \<longrightarrow> r < 10 \<longrightarrow>
              chart_cell p' b r =
                (if bin \<le> b \<and> r \<le> num_full_spec bins b then cell_level_spec bins b r
                 else chart_cell p b r))"
  using assms(2)
proof (induction p bin rule: render_bins.induct)
  case (1 p bin)
  show ?case
  proof (cases "bin < m_num_bins p")
    case False
    then have "render_bins p bin = Inr p"
      by (subst render_bins.simps) simp
    with False "1.prems" show ?thesis by auto
  next
    case True
    from render_bin_cell [OF assms(1) "1.prems" True] obtain q where
      q: "render_bin p bin = Inr q" "printer_for bins q"
      and qc: "\<And>b r. b < m_num_bins p \<Longrightarrow> r < 10 \<Longrightarrow>
          chart_cell q b r =
            (if b = bin \<and> r \<le> num_full_spec bins bin then cell_level_spec bins bin r
             else chart_cell p b r)"
      by blast
    have nb: "m_num_bins q = m_num_bins p"
      using q(2) "1.prems" by (simp add: printer_for_def)
    from "1.IH" [OF True q(1) q(2)] nb obtain p' where
      p': "render_bins q (bin + 1) = Inr p'" "printer_for bins p'"
      and pc: "\<And>b r. b < m_num_bins p \<Longrightarrow> r < 10 \<Longrightarrow>
          chart_cell p' b r =
            (if bin + 1 \<le> b \<and> r \<le> num_full_spec bins b then cell_level_spec bins b r
             else chart_cell q b r)"
      by auto
    have w: "render_bins p bin = Inr p'"
      using True q(1) p'(1) by (subst render_bins.simps) simp
    have "chart_cell p' b r =
        (if bin \<le> b \<and> r \<le> num_full_spec bins b then cell_level_spec bins b r
         else chart_cell p b r)"
      if "b < m_num_bins p" "r < 10" for b r
    proof (cases "b = bin")
      case True
      with pc [OF that] qc [OF that] show ?thesis by simp
    next
      case False
      with pc [OF that] qc [OF that] show ?thesis by auto
    qed
    with w p'(2) show ?thesis by blast
  qed
qed

lemma render_bins_chart:
  assumes "histogram_ok bins"
  shows "\<exists>p'. render_bins (make_histogram_printer min_v stride bins) 0 = Inr p' \<and>
           printer_for bins p' \<and>
           (\<forall>b r. b < length bins - 2 \<longrightarrow> r < 10 \<longrightarrow>
              chart_cell p' b r = cell_level_spec bins b r)"
proof -
  let ?p = "make_histogram_printer min_v stride bins"
  note mk = printer_for_make [OF assms, of min_v stride]
  have nb: "m_num_bins ?p = length bins - 2" "m_num_rows ?p = 10"
    using mk(1) by (simp_all add: printer_for_def)
  have zero: "chart_cell ?p b r = 0" if "b < length bins - 2" "r < 10" for b r
    using offset_in_chart [OF that(2) that(1)]
    by (simp add: chart_cell_def mk(2) nb)
  from render_bins_cell [OF assms mk(1), of 0] obtain p' where
    p': "render_bins ?p 0 = Inr p'" "printer_for bins p'"
    and pc: "\<And>b r. b < m_num_bins ?p \<Longrightarrow> r < 10 \<Longrightarrow>
        chart_cell p' b r =
          (if 0 \<le> b \<and> r \<le> num_full_spec bins b then cell_level_spec bins b r
           else chart_cell ?p b r)"
    by blast
  have "chart_cell p' b r = cell_level_spec bins b r" if "b < length bins - 2" "r < 10" for b r
    using pc [of b r] that zero [OF that] nb by (auto simp: cell_level_spec_def)
  with p' show ?thesis by blast
qed

















text \<open>
  C8. Under the same precondition, the scaled value of every rendered bin is at most
  \<open>1\<close>, so \<open>num_full\<close> is at most \<open>num_rows\<close>; no assertion fails and no write leaves
  the chart: \<^verbatim>\<open>render\<close> returns a string.
\<close>

theorem render_num_full_bounded:
  assumes "histogram_ok bins"
  shows "(\<forall>bin. bin < m_num_bins (make_histogram_printer min_v stride bins) \<longrightarrow>
            (\<exists>scaled_value num_full.
               fmul (float_of_int64 (bins ! (bin + 1)))
                 (m_scale_factor (make_histogram_printer min_v stride bins)) = Fin scaled_value \<and>
               scaled_value \<le> 1 \<and>
               size_of_float (fmul (Fin scaled_value)
                 (float_of_size (m_num_rows (make_histogram_printer min_v stride bins)))) =
                 Some num_full \<and>
               num_full \<le> m_num_rows (make_histogram_printer min_v stride bins))) \<and>
         (\<exists>out. render (make_histogram_printer min_v stride bins) = Inr out)"
proof (intro conjI allI impI)
  let ?p = "make_histogram_printer min_v stride bins"
  note mk = printer_for_make(1) [OF assms, of min_v stride]
  then have mem: "m_num_rows ?p = 10" "m_num_bins ?p = length bins - 2"
    "m_scale_factor ?p = Fin (scale_factor_spec bins)"
    by (simp_all add: printer_for_def)
  show "\<exists>scaled_value num_full.
      fmul (float_of_int64 (bins ! (bin + 1))) (m_scale_factor ?p) = Fin scaled_value \<and>
      scaled_value \<le> 1 \<and>
      size_of_float (fmul (Fin scaled_value) (float_of_size (m_num_rows ?p))) = Some num_full \<and>
      num_full \<le> m_num_rows ?p"
    if "bin < m_num_bins ?p" for bin
  proof -
    from that have idx: "bin + 1 < length bins"
      by (simp add: mem)
    have sv: "fmul (float_of_int64 (bins ! (bin + 1))) (m_scale_factor ?p) =
        Fin (scaled_value_spec bins bin)"
      by (simp add: mem float_of_int64_def scaled_value_spec_def)
    from num_full_cast [OF assms idx] sv
    have "size_of_float (fmul (Fin (scaled_value_spec bins bin)) (float_of_size (m_num_rows ?p))) =
        Some (num_full_spec bins bin)"
      by (simp add: mem)
    with sv scaled_value_range(2) [OF assms idx] num_full_le [OF assms idx] show ?thesis
      unfolding mem(1) by blast
  qed
  from render_bins_chart [OF assms, of min_v stride]
  show "\<exists>out. render ?p = Inr out"
    by (auto simp: render_def)
qed

theorem render_num_full_bounded_witness:
  "histogram_ok [3, 0, 5, 5, 1] \<and>
   1 < m_num_bins (make_histogram_printer (Fin 2) (Fin 3) [3, 0, 5, 5, 1]) \<and>
   (\<exists>scaled_value num_full.
      fmul (float_of_int64 ([3, 0, 5, 5, 1] ! (1 + 1)))
        (m_scale_factor (make_histogram_printer (Fin 2) (Fin 3) [3, 0, 5, 5, 1])) =
        Fin scaled_value \<and>
      scaled_value \<le> 1 \<and>
      size_of_float (fmul (Fin scaled_value)
        (float_of_size (m_num_rows (make_histogram_printer (Fin 2) (Fin 3) [3, 0, 5, 5, 1])))) =
        Some num_full \<and>
      num_full \<le> m_num_rows (make_histogram_printer (Fin 2) (Fin 3) [3, 0, 5, 5, 1])) \<and>
   (\<exists>out. render (make_histogram_printer (Fin 2) (Fin 3) [3, 0, 5, 5, 1]) = Inr out)"
proof -
  have ok: "histogram_ok [3, 0, 5, 5, 1]"
    by (simp add: histogram_ok_def)
  have nb: "1 < m_num_bins (make_histogram_printer (Fin 2) (Fin 3) [3, 0, 5, 5, 1])"
    by (simp add: make_histogram_printer_def size_sub_def)
  from render_num_full_bounded [OF ok, of "Fin 2" "Fin 3"] ok nb show ?thesis
    by (intro conjI) blast+
qed



end
